theory Spec2Isabelle
  imports Complex_Main "HOL-Library.Multiset"
begin

section \<open>Text and the regular expressions of the two scripts\<close>

text \<open>
  Both scripts read a file with \<^verbatim>\<open>open(file_path, 'r', encoding='utf-8')\<close> and work on
  the decoded text, a Python \<^verbatim>\<open>str\<close>: a sequence of Unicode code points. A code point
  is a natural number here; \<open>py\<close> turns an ASCII literal into such a sequence.
\<close>

type_synonym pystr = "nat list"

definition py :: "string \<Rightarrow> pystr" where
  "py s = map of_char s"

text \<open>
  \<^verbatim>\<open>\s\<close> in a \<^verbatim>\<open>str\<close> pattern is Unicode white space (\<^verbatim>\<open>str.isspace\<close> on one character):
  TAB, LF, VT, FF, CR, the separators 0x1C to 0x1F, the space, NEL, NBSP and the
  space characters beyond Latin-1. The line feed (10) is among them.
  \<^verbatim>\<open>.\<close> without \<^verbatim>\<open>re.DOTALL\<close> is every character but the line feed.
\<close>

definition is_space :: "nat \<Rightarrow> bool" where
  "is_space c = ((9 \<le> c \<and> c \<le> 13) \<or> (28 \<le> c \<and> c \<le> 32) \<or> c = 133 \<or> c = 160
     \<or> c = 5760 \<or> (8192 \<le> c \<and> c \<le> 8202) \<or> c = 8232 \<or> c = 8233 \<or> c = 8239
     \<or> c = 8287 \<or> c = 12288)"

definition dot :: "nat \<Rightarrow> bool" where
  "dot c = (c \<noteq> 10)"

definition is_hash :: "nat \<Rightarrow> bool" where
  "is_hash c = (c = 35)"

definition is_bullet :: "nat \<Rightarrow> bool" where
  "is_bullet c = (c = 45 \<or> c = 42 \<or> c = 43)"

text \<open>
  The five patterns of the source are sequences of these items:
  \<^item> \<open>Bol\<close> is \<^verbatim>\<open>^\<close> and \<open>Eol\<close> is \<^verbatim>\<open>$\<close>, both under \<^verbatim>\<open>re.MULTILINE\<close>: the start of the
    text or just after a line feed, the end of the text or just before a line feed;
  \<^item> \<open>One p\<close> is one character of the class \<open>p\<close> (a literal, \<^verbatim>\<open>\s\<close>, \<^verbatim>\<open>[-*+]\<close>);
  \<^item> \<open>Greedy p lo hi\<close> is the class repeated \<open>lo\<close> to \<open>hi\<close> times, as many as possible
    first (\<^verbatim>\<open>#{1,6}\<close>, \<^verbatim>\<open>\s*\<close>, \<^verbatim>\<open>\s+\<close>, \<^verbatim>\<open>.+\<close>; \<open>None\<close> is no upper bound);
  \<^item> \<open>Lazy p lo hi\<close> is the same, as few as possible first (\<^verbatim>\<open>.*?\<close>).
\<close>

datatype item = Bol | Eol | One "nat \<Rightarrow> bool"
  | Greedy "nat \<Rightarrow> bool" nat "nat option"
  | Lazy "nat \<Rightarrow> bool" nat "nat option"

definition at_bol :: "nat option \<Rightarrow> bool" where
  "at_bol prev = (prev = None \<or> prev = Some 10)"

definition at_eol :: "pystr \<Rightarrow> bool" where
  "at_eol s = (case s of [] \<Rightarrow> True | c # _ \<Rightarrow> c = 10)"

text \<open>
  A match is the list of the pieces of text its items took, one piece an item, and the
  text left after it. \<open>open_piece\<close> starts the (empty) piece of an item, \<open>push\<close> adds
  a character at the front of the first piece.
\<close>

type_synonym mres = "(pystr list \<times> pystr) option"

definition open_piece :: "mres \<Rightarrow> mres" where
  "open_piece m = map_option (\<lambda>(ps, rest). ([] # ps, rest)) m"

definition push :: "nat \<Rightarrow> mres \<Rightarrow> mres" where
  "push c m =
     map_option (\<lambda>(ps, rest). (case ps of [] \<Rightarrow> [[c]] | p # ps' \<Rightarrow> (c # p) # ps', rest)) m"

definition may_take :: "nat option \<Rightarrow> bool" where
  "may_take hi = (hi \<noteq> Some 0)"

definition dec :: "nat option \<Rightarrow> nat option" where
  "dec hi = map_option (\<lambda>h. h - 1) hi"

text \<open>
  \<open>rmatch its prev s\<close> is the backtracking match of \<^verbatim>\<open>re\<close> at one position: \<open>prev\<close>
  is the character before the position (\<open>None\<close> at the start of the text) and \<open>s\<close>
  the text from the position on. The first alternative that lets the rest of the
  pattern match wins: a greedy repetition tries one more character before it tries to
  stop, a lazy one tries to stop first.
\<close>

function rmatch :: "item list \<Rightarrow> nat option \<Rightarrow> pystr \<Rightarrow> mres" where
  "rmatch [] prev s = Some ([], s)"
| "rmatch (Bol # r) prev s = (if at_bol prev then open_piece (rmatch r prev s) else None)"
| "rmatch (Eol # r) prev s = (if at_eol s then open_piece (rmatch r prev s) else None)"
| "rmatch (One p # r) prev [] = None"
| "rmatch (One p # r) prev (c # cs) =
     (if p c then push c (open_piece (rmatch r (Some c) cs)) else None)"
| "rmatch (Greedy p lo hi # r) prev [] =
     (if lo = 0 then open_piece (rmatch r prev []) else None)"
| "rmatch (Greedy p lo hi # r) prev (c # cs) =
     (case (if p c \<and> may_take hi
            then push c (rmatch (Greedy p (lo - 1) (dec hi) # r) (Some c) cs) else None) of
        Some m \<Rightarrow> Some m
      | None \<Rightarrow> if lo = 0 then open_piece (rmatch r prev (c # cs)) else None)"
| "rmatch (Lazy p lo hi # r) prev [] =
     (if lo = 0 then open_piece (rmatch r prev []) else None)"
| "rmatch (Lazy p lo hi # r) prev (c # cs) =
     (case (if lo = 0 then open_piece (rmatch r prev (c # cs)) else None) of
        Some m \<Rightarrow> Some m
      | None \<Rightarrow> if p c \<and> may_take hi
            then push c (rmatch (Lazy p (lo - 1) (dec hi) # r) (Some c) cs) else None)"
  by pat_completeness auto
termination
  by (relation "measure (\<lambda>(its, prev, s). length its + length s)") auto

text \<open>
  \<^verbatim>\<open>re.findall\<close> scans the text from left to right: it takes the first position where
  the pattern matches, records the match and goes on behind it. Behind an empty match
  it moves on by one character; none of the five patterns can match the empty text
  (\<open>rmatch_nonempty\<close> below), so that branch is never taken for them.
\<close>

function findall_from :: "item list \<Rightarrow> nat option \<Rightarrow> pystr \<Rightarrow> pystr list list" where
  "findall_from its prev s =
     (case rmatch its prev s of
        Some (ps, rest) \<Rightarrow>
          (if length rest < length s
           then ps # findall_from its (Some (last (concat ps))) rest
           else ps # (case s of [] \<Rightarrow> [] | c # cs \<Rightarrow> findall_from its (Some c) cs))
      | None \<Rightarrow> (case s of [] \<Rightarrow> [] | c # cs \<Rightarrow> findall_from its (Some c) cs))"
  by pat_completeness auto
termination
  by (relation "measure (\<lambda>(its, prev, s). length s)") auto

declare findall_from.simps [simp del]

definition findall :: "item list \<Rightarrow> pystr \<Rightarrow> pystr list list" where
  "findall its content = findall_from its None content"


section \<open>The heading hierarchy checker\<close>

text \<open>
  \<^verbatim>\<open>re.findall(r'^(#{1,6})\s+(.+)$', content, re.MULTILINE)\<close>: with two groups,
  \<^verbatim>\<open>findall\<close> returns the pairs of what the groups took, here the piece of the
  second item (the hashes) and the piece of the fourth (the title).
\<close>

definition heading_pattern :: "item list" where
  "heading_pattern =
     [Bol, Greedy is_hash 1 (Some 6), Greedy is_space 1 None, Greedy dot 1 None, Eol]"

definition headings_of :: "pystr \<Rightarrow> (pystr \<times> pystr) list" where
  "headings_of content = map (\<lambda>ps. (ps ! 1, ps ! 3)) (findall heading_pattern content)"

text \<open>The decimal digits of a number, as an f-string prints an \<^verbatim>\<open>int\<close>.\<close>

fun str_nat :: "nat \<Rightarrow> pystr" where
  "str_nat n = (if n < 10 then [48 + n] else str_nat (n div 10) @ [48 + n mod 10])"

declare str_nat.simps [simp del]

definition issue_text :: "nat \<Rightarrow> nat \<Rightarrow> pystr \<Rightarrow> pystr" where
  "issue_text prev_level level title =
     py ''Heading level jump: H'' @ str_nat prev_level @ py '' to H'' @ str_nat level
       @ py '' - '' @ [39] @ title @ [39]"

text \<open>
  The loop over the headings, \<open>prev_level\<close> being its state; the issues come out in the
  order in which the source appends them.
\<close>

fun check_loop :: "nat \<Rightarrow> (pystr \<times> pystr) list \<Rightarrow> pystr list" where
  "check_loop prev_level [] = []"
| "check_loop prev_level (heading_match # hs) =
     (let level = length (fst heading_match); title = snd heading_match in
        (if prev_level > 0 \<and> level > prev_level + 1
         then [issue_text prev_level level title] else [])
        @ check_loop level hs)"

definition hierarchy_issues :: "pystr \<Rightarrow> pystr list" where
  "hierarchy_issues content = check_loop 0 (headings_of content)"

text \<open>
  What the specification says the checker reports: one issue for every heading that
  has a heading before it and lies more than one level below that one.
\<close>

definition level_jumps :: "(pystr \<times> pystr) list \<Rightarrow> pystr list" where
  "level_jumps hs =
     map (\<lambda>(p, h). issue_text (length (fst p)) (length (fst h)) (snd h))
       (filter (\<lambda>(p, h). length (fst p) + 1 < length (fst h)) (zip hs (tl hs)))"


section \<open>The markdown complexity analyzer\<close>

text \<open>
  The four patterns of \<^verbatim>\<open>analyze_complexity\<close>: \<^verbatim>\<open>^#{1,6}\<close> and \<^verbatim>\<open>^\s*[-*+]\s\<close> under
  \<^verbatim>\<open>re.MULTILINE\<close>, \<^verbatim>\<open>\[.*?\]\(.*?\)\<close> and three backticks without a flag. The code
  points are 91 and 93 for the brackets, 40 and 41 for the parentheses, 96 for the
  backtick.
\<close>

definition heading_line_pattern :: "item list" where
  "heading_line_pattern = [Bol, Greedy is_hash 1 (Some 6)]"

definition link_pattern :: "item list" where
  "link_pattern =
     [One (\<lambda>c. c = 91), Lazy dot 0 None, One (\<lambda>c. c = 93),
      One (\<lambda>c. c = 40), Lazy dot 0 None, One (\<lambda>c. c = 41)]"

definition fence_pattern :: "item list" where
  "fence_pattern = [One (\<lambda>c. c = 96), One (\<lambda>c. c = 96), One (\<lambda>c. c = 96)]"

definition list_pattern :: "item list" where
  "list_pattern = [Bol, Greedy is_space 0 None, One is_bullet, One is_space]"

text \<open>
  The occurrences of three backticks in a text in the specification's sense, counted
  from left to right without overlap (as \<^verbatim>\<open>str.count\<close> does).
\<close>

fun count_fences :: "pystr \<Rightarrow> nat" where
  "count_fences (a # b # c # r) =
     (if a = 96 \<and> b = 96 \<and> c = 96 then Suc (count_fences r) else count_fences (b # c # r))"
| "count_fences [a, b] = 0"
| "count_fences [a] = 0"
| "count_fences [] = 0"

text \<open>
  The lines of a text, each with the line feed that ends it (the last line has none
  when the text does not end with one), and the two readings of a list item line: as
  the specification words it, the line's text after its leading white space starts
  with \<^verbatim>\<open>-\<close>, \<^verbatim>\<open>*\<close> or \<^verbatim>\<open>+\<close> followed by a space (\<open>claimed_item_line\<close>), and the same with
  any white space character after the bullet, the line's own line feed included
  (\<open>item_line\<close>).
\<close>

fun lines_of :: "pystr \<Rightarrow> pystr list" where
  "lines_of [] = []"
| "lines_of (c # cs) =
     (if c = 10 then [c] # lines_of cs
      else (case lines_of cs of [] \<Rightarrow> [[c]] | l # ls \<Rightarrow> (c # l) # ls))"

definition item_line :: "pystr \<Rightarrow> bool" where
  "item_line l = (case dropWhile is_space l of c # d # _ \<Rightarrow> is_bullet c \<and> is_space d | _ \<Rightarrow> False)"

definition claimed_item_line :: "pystr \<Rightarrow> bool" where
  "claimed_item_line l = (case dropWhile is_space l of c # d # _ \<Rightarrow> is_bullet c \<and> d = 32 | _ \<Rightarrow> False)"

text \<open>The list pattern without its \<^verbatim>\<open>^\<close>, for the proofs about it.\<close>

definition list_tail :: "item list" where
  "list_tail = [Greedy is_space 0 None, One is_bullet, One is_space]"

text \<open>
  The score is a Python \<^verbatim>\<open>float\<close>, an IEEE 754 binary64 number. Such a number is
  modelled by the rational it denotes, and an operation by the exact operation
  followed by \<open>fl\<close>, rounding to the nearest number with a 53 bit significand, a tie
  going to the even one. \<open>binade x\<close> is the exponent \<open>e\<close> with \<open>2\<^sup>e \<le> x < 2\<^sup>e\<^sup>+\<^sup>1\<close>. The
  exponent range is not modelled: the values here are sums of four products of
  counts of matches in one text, far from overflow, and never subnormal.
\<close>

fun ilog2 :: "nat \<Rightarrow> nat" where
  "ilog2 n = (if n < 2 then 0 else Suc (ilog2 (n div 2)))"

declare ilog2.simps [simp del]

definition binade :: "rat \<Rightarrow> int" where
  "binade x = (if 1 \<le> x then int (ilog2 (nat \<lfloor>x\<rfloor>))
               else - int (Suc (ilog2 (nat \<lceil>1 / x\<rceil> - 1))))"

definition round_half_even :: "rat \<Rightarrow> int" where
  "round_half_even y =
     (let n = \<lfloor>y\<rfloor>; f = y - of_int n in
      if f < 1 / 2 then n else if 1 / 2 < f then n + 1 else if even n then n else n + 1)"

definition fl :: "rat \<Rightarrow> rat" where
  "fl x = (if x = 0 then 0
           else let u = 2 powi (binade \<bar>x\<bar> - 52)
                in sgn x * of_int (round_half_even (\<bar>x\<bar> / u)) * u)"

definition float_of_int :: "nat \<Rightarrow> rat" where
  "float_of_int n = fl (of_nat n)"

definition fadd :: "rat \<Rightarrow> rat \<Rightarrow> rat" where
  "fadd x y = fl (x + y)"

definition fmul :: "rat \<Rightarrow> rat \<Rightarrow> rat" where
  "fmul x y = fl (x * y)"

text \<open>
  \<^verbatim>\<open>headings + (links * 0.5) + (code_blocks * 2) + (lists * 0.3)\<close>: the sum associates
  to the left, \<^verbatim>\<open>code_blocks * 2\<close> is a product of integers, an integer operand of a
  float operation is converted first, and the literals are the floats nearest to
  1/2 and 3/10.
\<close>

definition score :: "nat \<Rightarrow> nat \<Rightarrow> nat \<Rightarrow> nat \<Rightarrow> rat" where
  "score headings links code_blocks lists_count =
     fadd (fadd (fadd (float_of_int headings) (fmul (float_of_int links) (fl (1 / 2))))
                (float_of_int (code_blocks * 2)))
          (fmul (float_of_int lists_count) (fl (3 / 10)))"

text \<open>The dictionary the function returns; its key \<^verbatim>\<open>'lists'\<close> is the field \<open>lists_count\<close>.\<close>

record stats =
  headings :: nat
  links :: nat
  code_blocks :: nat
  lists_count :: nat
  complexity :: rat

definition complexity_stats :: "pystr \<Rightarrow> stats" where
  "complexity_stats content =
     (let headings = length (findall heading_line_pattern content);
          links = length (findall link_pattern content);
          code_blocks = length (findall fence_pattern content) div 2;
          lists_count = length (findall list_pattern content);
          complexity = score headings links code_blocks lists_count
      in \<lparr>headings = headings, links = links, code_blocks = code_blocks, lists_count = lists_count,
          complexity = complexity\<rparr>)"

text \<open>
  \<^verbatim>\<open>f"{x:.1f}"\<close> for a float that is not negative: the decimal with one digit after the
  point nearest to the exact value of the float, a tie going to the even digit.
\<close>

definition format_1f :: "rat \<Rightarrow> pystr" where
  "format_1f x =
     (let n = nat (round_half_even (x * 10)) in str_nat (n div 10) @ [46] @ str_nat (n mod 10))"


section \<open>Files, the directory walk and the two entry points\<close>

text \<open>
  Opening and reading a file either gives its text (decoded, with every line end
  translated to a line feed) or raises; neither script catches the exception, so it
  ends the run. The environment of a run is the directory tree
  under \<^verbatim>\<open>docs\<close> and a reader, the function from a path to what reading it gives.
\<close>

datatype error = OSError | UnicodeDecodeError

type_synonym reader = "pystr \<Rightarrow> error + pystr"

definition check_heading_hierarchy :: "reader \<Rightarrow> pystr \<Rightarrow> error + pystr list" where
  "check_heading_hierarchy rd file_path =
     (case rd file_path of Inl e \<Rightarrow> Inl e | Inr content \<Rightarrow> Inr (hierarchy_issues content))"

definition analyze_complexity :: "reader \<Rightarrow> pystr \<Rightarrow> error + stats" where
  "analyze_complexity rd file_path =
     (case rd file_path of Inl e \<Rightarrow> Inl e | Inr content \<Rightarrow> Inr (complexity_stats content))"

text \<open>
  A directory is the list of its entries in the order in which the system lists them.
  \<^verbatim>\<open>os.walk(top)\<close> yields, for \<^verbatim>\<open>top\<close> and then for every directory below it, the
  directory's path, the names of its subdirectories and the names of its other
  entries; a subdirectory's path is \<^verbatim>\<open>os.path.join\<close> of the path and the name.
  \<open>File\<close> is any entry that is not a directory. A symbolic link to a directory, which
  \<^verbatim>\<open>os.walk\<close> lists but does not enter, and a directory that cannot be listed, which it
  skips, behave for the two scripts as directories without entries.
\<close>

datatype node = File pystr | Dir pystr "node list"

definition join :: "pystr \<Rightarrow> pystr \<Rightarrow> pystr" where
  "join a b = (if b \<noteq> [] \<and> hd b = 47 then b
               else if a = [] \<or> last a = 47 then a @ b else a @ [47] @ b)"

definition endswith :: "pystr \<Rightarrow> pystr \<Rightarrow> bool" where
  "endswith s suffix =
     (length suffix \<le> length s \<and> drop (length s - length suffix) s = suffix)"

fun dirnames :: "node list \<Rightarrow> pystr list" where
  "dirnames [] = []"
| "dirnames (File name # es) = dirnames es"
| "dirnames (Dir name sub # es) = name # dirnames es"

fun filenames :: "node list \<Rightarrow> pystr list" where
  "filenames [] = []"
| "filenames (File name # es) = name # filenames es"
| "filenames (Dir name sub # es) = filenames es"

fun walk :: "pystr \<Rightarrow> node list \<Rightarrow> (pystr \<times> pystr list \<times> pystr list) list"
  and walk_subdirs :: "pystr \<Rightarrow> node list \<Rightarrow> (pystr \<times> pystr list \<times> pystr list) list" where
  "walk top_dir entries = (top_dir, dirnames entries, filenames entries) # walk_subdirs top_dir entries"
| "walk_subdirs top_dir [] = []"
| "walk_subdirs top_dir (File name # es) = walk_subdirs top_dir es"
| "walk_subdirs top_dir (Dir name sub # es) = walk (join top_dir name) sub @ walk_subdirs top_dir es"

text \<open>
  The state of the two nested loops of an entry point: the paths opened so far, in
  order, and the list the source appends to (\<^verbatim>\<open>all_issues\<close>,
  \<^verbatim>\<open>high_complexity_files\<close>).
\<close>

fun files_loop_h ::
  "reader \<Rightarrow> pystr \<Rightarrow> pystr list \<Rightarrow> pystr list \<times> pystr list \<Rightarrow> error + pystr list \<times> pystr list" where
  "files_loop_h rd root_dir [] st = Inr st"
| "files_loop_h rd root_dir (file # files) (opened, all_issues) =
     (if endswith file (py ''.md'')
      then (let file_path = join root_dir file in
            case check_heading_hierarchy rd file_path of
              Inl e \<Rightarrow> Inl e
            | Inr issues \<Rightarrow>
                files_loop_h rd root_dir files
                  (opened @ [file_path],
                   all_issues @ map (\<lambda>issue. file_path @ py '': '' @ issue) issues))
      else files_loop_h rd root_dir files (opened, all_issues))"

fun walk_loop_h ::
  "reader \<Rightarrow> (pystr \<times> pystr list \<times> pystr list) list \<Rightarrow> pystr list \<times> pystr list
     \<Rightarrow> error + pystr list \<times> pystr list" where
  "walk_loop_h rd [] st = Inr st"
| "walk_loop_h rd ((root_dir, dirs, files) # w) st =
     (case files_loop_h rd root_dir files st of
        Inl e \<Rightarrow> Inl e
      | Inr st' \<Rightarrow> walk_loop_h rd w st')"

fun files_loop_c ::
  "reader \<Rightarrow> pystr \<Rightarrow> pystr list \<Rightarrow> pystr list \<times> (pystr \<times> stats) list
     \<Rightarrow> error + pystr list \<times> (pystr \<times> stats) list" where
  "files_loop_c rd root_dir [] st = Inr st"
| "files_loop_c rd root_dir (file # files) (opened, high_complexity_files) =
     (if endswith file (py ''.md'')
      then (let file_path = join root_dir file in
            case analyze_complexity rd file_path of
              Inl e \<Rightarrow> Inl e
            | Inr stats \<Rightarrow>
                files_loop_c rd root_dir files
                  (opened @ [file_path],
                   if 50 < complexity stats
                   then high_complexity_files @ [(file_path, stats)]
                   else high_complexity_files))
      else files_loop_c rd root_dir files (opened, high_complexity_files))"

fun walk_loop_c ::
  "reader \<Rightarrow> (pystr \<times> pystr list \<times> pystr list) list \<Rightarrow> pystr list \<times> (pystr \<times> stats) list
     \<Rightarrow> error + pystr list \<times> (pystr \<times> stats) list" where
  "walk_loop_c rd [] st = Inr st"
| "walk_loop_c rd ((root_dir, dirs, files) # w) st =
     (case files_loop_c rd root_dir files st of
        Inl e \<Rightarrow> Inl e
      | Inr st' \<Rightarrow> walk_loop_c rd w st')"

text \<open>
  What a run that ends by \<^verbatim>\<open>exit\<close> leaves behind: the files it opened, the lines it
  printed and its exit code. The marks at the start of the first line are the code
  points 10060 (failure) and 9989 (success).
\<close>

record run =
  files_opened :: "pystr list"
  printed :: "pystr list"
  exit_code :: nat

definition report_h :: "pystr list \<times> pystr list \<Rightarrow> run" where
  "report_h st =
     (case st of (opened, all_issues) \<Rightarrow>
        if all_issues \<noteq> []
        then \<lparr>files_opened = opened,
              printed = ([10060] @ py '' Heading hierarchy issues found:'')
                         # map (\<lambda>issue. py ''  - '' @ issue) all_issues,
              exit_code = 1\<rparr>
        else \<lparr>files_opened = opened,
              printed = [[9989] @ py '' All heading hierarchies are correct''],
              exit_code = 0\<rparr>)"

definition report_c :: "pystr list \<times> (pystr \<times> stats) list \<Rightarrow> run" where
  "report_c st =
     (case st of (opened, high_complexity_files) \<Rightarrow>
        if high_complexity_files \<noteq> []
        then \<lparr>files_opened = opened,
              printed = ([10060] @ py '' High complexity files detected:'')
                         # map (\<lambda>(file_path, stats).
                                  py ''  - '' @ file_path @ py '': complexity=''
                                    @ format_1f (complexity stats))
                               high_complexity_files,
              exit_code = 1\<rparr>
        else \<lparr>files_opened = opened,
              printed = [[9989] @ py '' All files have reasonable complexity''],
              exit_code = 0\<rparr>)"

definition main_heading :: "node list \<Rightarrow> reader \<Rightarrow> error + run" where
  "main_heading docs rd =
     (case walk_loop_h rd (walk (py ''docs'') docs) ([], []) of
        Inl e \<Rightarrow> Inl e
      | Inr st \<Rightarrow> Inr (report_h st))"

definition main_complexity :: "node list \<Rightarrow> reader \<Rightarrow> error + run" where
  "main_complexity docs rd =
     (case walk_loop_c rd (walk (py ''docs'') docs) ([], []) of
        Inl e \<Rightarrow> Inl e
      | Inr st \<Rightarrow> Inr (report_c st))"

text \<open>
  The exit status of the process: the argument of \<^verbatim>\<open>exit\<close> when the script reaches it,
  and 1 when an exception nobody catches ends the interpreter.
\<close>

definition process_exit_status :: "error + run \<Rightarrow> nat" where
  "process_exit_status res = (case res of Inl e \<Rightarrow> 1 | Inr r \<Rightarrow> exit_code r)"


text \<open>
  The files the specification has the scripts analyze: every file of the tree, at any
  depth, whose name ends with \<^verbatim>\<open>.md\<close>, by its path.
\<close>

fun md_under :: "pystr \<Rightarrow> node list \<Rightarrow> pystr list" where
  "md_under d [] = []"
| "md_under d (File name # es) =
     (if endswith name (py ''.md'') then [join d name] else []) @ md_under d es"
| "md_under d (Dir name sub # es) = md_under (join d name) sub @ md_under d es"

text \<open>
  The paths the two loops select from a walk, and the loops as one pass over a list of
  paths; \<open>walk_loop_h_each\<close> and \<open>walk_loop_c_each\<close> show that the nested loops are
  that pass over \<open>md_paths\<close> of the walk.
\<close>

definition md_files :: "pystr \<Rightarrow> pystr list \<Rightarrow> pystr list" where
  "md_files root_dir files = map (join root_dir) (filter (\<lambda>file. endswith file (py ''.md'')) files)"

definition md_paths :: "(pystr \<times> pystr list \<times> pystr list) list \<Rightarrow> pystr list" where
  "md_paths w = concat (map (\<lambda>(root_dir, dirs, files). md_files root_dir files) w)"

fun each_h :: "reader \<Rightarrow> pystr list \<Rightarrow> pystr list \<times> pystr list \<Rightarrow> error + pystr list \<times> pystr list" where
  "each_h rd [] st = Inr st"
| "each_h rd (file_path # ps) (opened, all_issues) =
     (case check_heading_hierarchy rd file_path of
        Inl e \<Rightarrow> Inl e
      | Inr issues \<Rightarrow>
          each_h rd ps (opened @ [file_path],
                        all_issues @ map (\<lambda>issue. file_path @ py '': '' @ issue) issues))"

fun each_c :: "reader \<Rightarrow> pystr list \<Rightarrow> pystr list \<times> (pystr \<times> stats) list
     \<Rightarrow> error + pystr list \<times> (pystr \<times> stats) list" where
  "each_c rd [] st = Inr st"
| "each_c rd (file_path # ps) (opened, high) =
     (case analyze_complexity rd file_path of
        Inl e \<Rightarrow> Inl e
      | Inr stats \<Rightarrow>
          each_c rd ps (opened @ [file_path],
                        if 50 < complexity stats then high @ [(file_path, stats)] else high))"

text \<open>A small tree and two readers, used to instantiate the theorems below.\<close>

definition example_docs :: "node list" where
  "example_docs =
     [File (py ''a.md''), File (py ''b.txt''),
      Dir (py ''sub'') [File (py ''c.md''), Dir (py ''deep'') [File (py ''d.md''), File (py ''e.mdx'')]]]"

definition example_reader :: reader where
  "example_reader p = (if p = py ''docs/a.md'' then Inr (py ''# A\<newline>### B'') else Inr [])"

definition other_reader :: reader where
  "other_reader p =
     (if p = py ''docs/a.md'' then Inr (py ''# A\<newline>### B'')
      else if p = py ''docs/b.txt'' then Inl UnicodeDecodeError else Inr [])"

text \<open>A tree whose only file cannot be decoded.\<close>

definition undecodable_docs :: "node list" where
  "undecodable_docs = [File (py ''bad.md'')]"

definition undecodable_reader :: reader where
  "undecodable_reader p = Inl UnicodeDecodeError"

text \<open>
  A text of \<open>n\<close> heading lines and nothing else, and a tree with three such files.
\<close>

definition heading_lines :: "nat \<Rightarrow> pystr" where
  "heading_lines n = concat (replicate n (py ''# h\<newline>''))"

definition sized_docs :: "node list" where
  "sized_docs = [File (py ''ten.md''), File (py ''fifty.md''), File (py ''sixty.md'')]"

definition sized_reader :: reader where
  "sized_reader p =
     (if p = py ''docs/ten.md'' then Inr (heading_lines 10)
      else if p = py ''docs/fifty.md'' then Inr (heading_lines 50)
      else if p = py ''docs/sixty.md'' then Inr (heading_lines 60)
      else Inl OSError)"


section \<open>Properties of the matcher\<close>

fun upto_max :: "nat option \<Rightarrow> nat \<Rightarrow> bool" where
  "upto_max None n = True"
| "upto_max (Some h) n = (n \<le> h)"

fun piece_ok :: "item \<Rightarrow> pystr \<Rightarrow> bool" where
  "piece_ok Bol w = (w = [])"
| "piece_ok Eol w = (w = [])"
| "piece_ok (One p) w = (length w = 1 \<and> list_all p w)"
| "piece_ok (Greedy p lo hi) w = (list_all p w \<and> lo \<le> length w \<and> upto_max hi (length w))"
| "piece_ok (Lazy p lo hi) w = (list_all p w \<and> lo \<le> length w \<and> upto_max hi (length w))"

lemma upto_max_dec: "may_take hi \<Longrightarrow> upto_max (dec hi) n \<Longrightarrow> upto_max hi (Suc n)"
  by (cases hi) (auto simp: may_take_def dec_def)

lemma upto_max_0 [simp]: "upto_max hi 0"
  by (cases hi) auto

lemma push_Some:
  "\<exists>p ps'. m = Some (p # ps', rest) \<and> ps = (c # p) # ps' \<or> m = Some ([], rest) \<and> ps = [[c]]"
  if "push c m = Some (ps, rest)"
proof (cases m)
  case None
  then show ?thesis using that by (simp add: push_def)
next
  case (Some a)
  obtain qs r where a: "a = (qs, r)" by (cases a)
  show ?thesis using that Some a by (cases qs) (auto simp: push_def)
qed

lemma open_piece_Some:
  "open_piece m = Some (ps, rest) \<Longrightarrow> \<exists>ps'. m = Some (ps', rest) \<and> ps = [] # ps'"
  by (auto simp: open_piece_def)

text \<open>Every piece of a match is text its item accepts, and the pieces are a prefix of the text.\<close>

lemma rmatch_sound:
  "rmatch its prev s = Some (ps, rest) \<Longrightarrow> list_all2 piece_ok its ps \<and> concat ps @ rest = s"
proof (induction its prev s arbitrary: ps rest rule: rmatch.induct)
  case (1 prev s)
  then show ?case by simp
next
  case (2 r prev s)
  then show ?case by (auto split: if_splits dest!: open_piece_Some)
next
  case (3 r prev s)
  then show ?case by (auto split: if_splits dest!: open_piece_Some)
next
  case (4 p r prev)
  then show ?case by simp
next
  case (5 p r prev c cs)
  then show ?case by (auto split: if_splits dest!: push_Some open_piece_Some)
next
  case (6 p lo hi r prev)
  then show ?case by (auto split: if_splits dest!: open_piece_Some)
next
  case (7 p lo hi r prev c cs)
  then show ?case
    by (auto split: if_splits option.splits dest!: push_Some open_piece_Some intro: upto_max_dec)
next
  case (8 p lo hi r prev)
  then show ?case by (auto split: if_splits dest!: open_piece_Some)
next
  case (9 p lo hi r prev c cs)
  then show ?case
    by (auto split: if_splits option.splits dest!: push_Some open_piece_Some intro: upto_max_dec)
qed

text \<open>Every element of a \<open>findall\<close> result is a match of the pattern somewhere.\<close>

lemma findall_from_matches:
  "ps \<in> set (findall_from its prev s) \<Longrightarrow> \<exists>prev' s' rest. rmatch its prev' s' = Some (ps, rest)"
proof (induction its prev s rule: findall_from.induct)
  case (1 its prev s)
  show ?case
  proof (cases "rmatch its prev s")
    case None
    show ?thesis
    proof (cases s)
      case Nil
      with None "1.prems" show ?thesis by (simp add: findall_from.simps)
    next
      case (Cons c cs)
      with None "1.prems" have "ps \<in> set (findall_from its (Some c) cs)"
        by (simp add: findall_from.simps)
      with "1.IH" None Cons show ?thesis by blast
    qed
  next
    case (Some a)
    obtain qs rest where a: "a = (qs, rest)" by (cases a)
    show ?thesis
    proof (cases "ps = qs")
      case True
      with Some a show ?thesis by blast
    next
      case False
      show ?thesis
      proof (cases "length rest < length s")
        case True
        with Some a False "1.prems"
        have "ps \<in> set (findall_from its (Some (last (concat qs))) rest)"
          by (simp add: findall_from.simps)
        with "1.IH" Some a True show ?thesis by blast
      next
        case nl: False
        show ?thesis
        proof (cases s)
          case Nil
          with Some a False nl "1.prems" show ?thesis by (simp add: findall_from.simps)
        next
          case (Cons c cs)
          with Some a False nl "1.prems" have "ps \<in> set (findall_from its (Some c) cs)"
            by (simp add: findall_from.simps)
          with "1.IH" Some a nl Cons show ?thesis by blast
        qed
      qed
    qed
  qed
qed


text \<open>A match of any of the five patterns takes at least one character.\<close>

lemma rmatch_nonempty:
  assumes "its \<in> {heading_pattern, heading_line_pattern, link_pattern, fence_pattern, list_pattern}"
    and "rmatch its prev s = Some (ps, rest)"
  shows "length rest < length s"
proof -
  from rmatch_sound[OF assms(2)] have ok: "list_all2 piece_ok its ps" and s: "concat ps @ rest = s"
    by simp_all
  from assms(1) ok have "concat ps \<noteq> []"
    by (auto simp: heading_pattern_def heading_line_pattern_def link_pattern_def fence_pattern_def
          list_pattern_def list_all2_Cons1)
  with s show ?thesis by (metis length_append length_greater_0_conv less_add_same_cancel2)
qed


section \<open>Properties of the heading hierarchy checker\<close>

lemma heading_pieces:
  assumes "rmatch heading_pattern prev s = Some (ps, rest)"
  shows "\<exists>h w t. ps = [[], h, w, t, []] \<and> list_all is_hash h \<and> 1 \<le> length h \<and> length h \<le> 6
           \<and> list_all is_space w \<and> w \<noteq> [] \<and> list_all dot t \<and> t \<noteq> []"
proof -
  from rmatch_sound[OF assms] have "list_all2 piece_ok heading_pattern ps" by simp
  then show ?thesis
    by (auto simp: heading_pattern_def list_all2_Cons1)
qed

lemma heading_levels:
  assumes "h \<in> set (headings_of content)"
  shows "1 \<le> length (fst h) \<and> length (fst h) \<le> 6"
proof -
  from assms obtain ps where ps: "ps \<in> set (findall heading_pattern content)" 
    and h: "h = (ps ! 1, ps ! 3)"
    by (auto simp: headings_of_def)
  from ps obtain prev s rest where "rmatch heading_pattern prev s = Some (ps, rest)"
    unfolding findall_def by (blast dest: findall_from_matches)
  from heading_pieces[OF this] h show ?thesis by auto
qed

lemma level_jumps_Cons2:
  "level_jumps (p # h # hs) =
     (if length (fst p) + 1 < length (fst h)
      then [issue_text (length (fst p)) (length (fst h)) (snd h)] else []) @ level_jumps (h # hs)"
  by (simp add: level_jumps_def)

lemma level_jumps_single [simp]: "level_jumps [p] = []" "level_jumps [] = []"
  by (simp_all add: level_jumps_def)

lemma check_loop_jumps:
  "list_all (\<lambda>h. 0 < length (fst h)) hs \<Longrightarrow> 0 < length (fst p)
     \<Longrightarrow> check_loop (length (fst p)) hs = level_jumps (p # hs)"
proof (induction hs arbitrary: p)
  case Nil
  then show ?case by simp
next
  case (Cons h hs)
  then show ?case by (simp add: level_jumps_Cons2 Let_def)
qed

lemma check_loop_0:
  "list_all (\<lambda>h. 0 < length (fst h)) hs \<Longrightarrow> check_loop 0 hs = level_jumps hs"
proof (cases hs)
  case Nil
  then show ?thesis by simp
next
  case (Cons h hs')
  assume "list_all (\<lambda>h. 0 < length (fst h)) hs"
  with Cons check_loop_jumps[of hs' h] show ?thesis by (simp add: Let_def)
qed

lemma check_is_jumps: "hierarchy_issues content = level_jumps (headings_of content)"
  unfolding hierarchy_issues_def
  by (rule check_loop_0) (use heading_levels in \<open>fastforce simp: list_all_iff\<close>)

text \<open>Unfolding \<open>findall_from\<close> on a given text, one position a step.\<close>

lemma findall_from_Nil:
  "findall_from its prev [] = (case rmatch its prev [] of Some (ps, rest) \<Rightarrow> [ps] | None \<Rightarrow> [])"
  by (simp add: findall_from.simps split: option.splits)

lemma findall_from_Cons:
  "findall_from its prev (c # cs) =
     (case rmatch its prev (c # cs) of
        Some (ps, rest) \<Rightarrow>
          (if length rest < Suc (length cs)
           then ps # findall_from its (Some (last (concat ps))) rest
           else ps # findall_from its (Some c) cs)
      | None \<Rightarrow> findall_from its (Some c) cs)"
  by (subst findall_from.simps) (simp split: option.splits)

lemmas eval_simps = findall_def findall_from_Nil findall_from_Cons heading_pattern_def py_def at_bol_def at_eol_def
  open_piece_def push_def may_take_def dec_def is_space_def dot_def is_hash_def


lemma headings_of_example:
  "headings_of (py ''## a\<newline>#### b\<newline>#### c\<newline># d'') =
     [(py ''##'', py ''a''), (py ''####'', py ''b''), (py ''####'', py ''c''), (py ''#'', py ''d'')]"
  by (simp add: headings_of_def eval_simps)

text \<open>
  Claim C1. The issues of a file are exactly \<open>level_jumps\<close> of its headings: one issue,
  in document order, for every heading that has a predecessor and whose level is more
  than one above the level of that immediate predecessor, and none for any other
  heading (the first one, an equal or smaller level, a step of exactly one). The
  predecessor is the heading just before, whether or not that one raised an issue. In
  particular headings of the levels 2, 4, 4, 1 give exactly one issue.
\<close>

theorem heading_issues_are_level_jumps:
  "hierarchy_issues content = level_jumps (headings_of content)
   \<and> (map (\<lambda>h. length (fst h)) (headings_of content) = [2, 4, 4, 1]
        \<longrightarrow> length (hierarchy_issues content) = 1)"
proof -
  have eq: "hierarchy_issues content = level_jumps (headings_of content)"
    by (rule check_is_jumps)
  have "length (level_jumps hs) = 1" if "map (\<lambda>h. length (fst h)) hs = [2, 4, 4, 1]"
    for hs :: "(pystr \<times> pystr) list"
  proof -
    from that obtain a b c d where "hs = [a, b, c, d]"
      "length (fst a) = 2" "length (fst b) = 4" "length (fst c) = 4" "length (fst d) = 1"
      by (auto simp: map_eq_Cons_conv)
    then show ?thesis by (simp add: level_jumps_Cons2)
  qed
  with eq show ?thesis by simp
qed

theorem heading_issues_are_level_jumps_witness:
  "map (\<lambda>h. length (fst h)) (headings_of (py ''## a\<newline>#### b\<newline>#### c\<newline># d'')) = [2, 4, 4, 1]
   \<and> length (hierarchy_issues (py ''## a\<newline>#### b\<newline>#### c\<newline># d'')) = 1
   \<and> hierarchy_issues (py ''## a\<newline>#### b\<newline>#### c\<newline># d'')
       = [py ''Heading level jump: H2 to H4 - '' @ [39] @ py ''b'' @ [39]]"
proof -
  let ?c = "py ''## a\<newline>#### b\<newline>#### c\<newline># d''"
  have levels: "map (\<lambda>h. length (fst h)) (headings_of ?c) = [2, 4, 4, 1]"
    by (simp add: headings_of_example) (simp add: py_def)
  have jumps: "level_jumps (headings_of ?c)
      = [py ''Heading level jump: H2 to H4 - '' @ [39] @ py ''b'' @ [39]]"
    by (simp add: headings_of_example level_jumps_Cons2)
       (simp add: py_def issue_text_def str_nat.simps)
  from heading_issues_are_level_jumps [of ?c] levels jumps show ?thesis by simp
qed

text \<open>
  Claim C9. There are texts in which a line of hashes alone is a heading: in
  \<^verbatim>\<open>###\<close>, line feed, \<^verbatim>\<open>B\<close> the white space of the pattern takes the line feed and the
  title is the next line; blank lines and indentation before the title are skipped
  the same way. Such a heading takes part in the level check: after \<^verbatim>\<open># A\<close> it is
  reported as a jump from level 1 to level 3 with the title \<^verbatim>\<open>B\<close>.
\<close>

theorem bare_hashes_take_next_line_as_title:
  "findall heading_pattern (py ''###\<newline>B'') = [[[], py ''###'', [10], py ''B'', []]]
   \<and> headings_of (py ''###\<newline>B'') = [(py ''###'', py ''B'')]
   \<and> headings_of (py ''##\<newline>\<newline>  C d\<newline>e'') = [(py ''##'', py ''C d'')]
   \<and> hierarchy_issues (py ''# A\<newline>###\<newline>B'')
       = [py ''Heading level jump: H1 to H3 - '' @ [39] @ py ''B'' @ [39]]"
proof -
  have 0: "findall heading_pattern (py ''###\<newline>B'') = [[[], py ''###'', [10], py ''B'', []]]"
    by (simp add: eval_simps)
  have 1: "headings_of (py ''###\<newline>B'') = [(py ''###'', py ''B'')]"
    by (simp add: headings_of_def eval_simps)
  have 2: "headings_of (py ''##\<newline>\<newline>  C d\<newline>e'') = [(py ''##'', py ''C d'')]"
    by (simp add: headings_of_def eval_simps)
  have 3: "headings_of (py ''# A\<newline>###\<newline>B'') = [(py ''#'', py ''A''), (py ''###'', py ''B'')]"
    by (simp add: headings_of_def eval_simps)
  have 4: "hierarchy_issues (py ''# A\<newline>###\<newline>B'')
       = [py ''Heading level jump: H1 to H3 - '' @ [39] @ py ''B'' @ [39]]"
    by (simp add: hierarchy_issues_def 3) (simp add: py_def issue_text_def str_nat.simps)
  from 0 1 2 4 show ?thesis by simp
qed


section \<open>Properties of the complexity analyzer\<close>

lemma link_no_newline:
  assumes "rmatch link_pattern prev s = Some (ps, rest)"
  shows "10 \<notin> set (concat ps)"
proof -
  from rmatch_sound[OF assms] have "list_all2 piece_ok link_pattern ps" by simp
  then show ?thesis
    by (auto simp: link_pattern_def list_all2_Cons1 dot_def list_all_iff length_Suc_conv)
qed

lemma links_eval: "links (complexity_stats content) = length (findall link_pattern content)"
  by (simp add: complexity_stats_def Let_def)

text \<open>
  Claim C10. Every match the link pattern finds lies within one line: no counted match
  contains a line feed, the wildcard not matching it. So a bracket part on one line
  with the parenthesis part on the next is not a link: the text \<^verbatim>\<open>[a]\<close>, line feed,
  \<^verbatim>\<open>(b)\<close> has link count 0.
\<close>

theorem link_matches_within_line:
  "(\<forall>m \<in> set (findall link_pattern content). 10 \<notin> set (concat m))
   \<and> links (complexity_stats (py ''[a]\<newline>(b)'')) = 0"
proof
  show "\<forall>m \<in> set (findall link_pattern content). 10 \<notin> set (concat m)"
    unfolding findall_def by (blast dest: findall_from_matches link_no_newline)
  show "links (complexity_stats (py ''[a]\<newline>(b)'')) = 0"
    by (simp add: links_eval eval_simps link_pattern_def)
qed

theorem link_matches_within_line_witness:
  "findall link_pattern (py ''[a](b)\<newline>[c]\<newline>(d)'') = [[[91], [97], [93], [40], [98], [41]]]
   \<and> 10 \<notin> set (concat [[91], [97], [93], [40], [98], [41 :: nat]])"
proof -
  have "findall link_pattern (py ''[a](b)\<newline>[c]\<newline>(d)'') = [[[91], [97], [93], [40], [98], [41]]]"
    by (simp add: eval_simps link_pattern_def)
  with link_matches_within_line [of "py ''[a](b)\<newline>[c]\<newline>(d)''"] show ?thesis by simp
qed

lemma fence_match:
  "rmatch fence_pattern prev (a # b # c # r) =
     (if a = 96 \<and> b = 96 \<and> c = 96 then Some ([[96], [96], [96]], r) else None)"
  by (simp add: fence_pattern_def open_piece_def push_def)

lemma fence_match_short:
  "rmatch fence_pattern prev [] = None"
  "rmatch fence_pattern prev [a] = None"
  "rmatch fence_pattern prev [a, b] = None"
  by (simp_all add: fence_pattern_def open_piece_def push_def)

lemma fences_counted: "length (findall_from fence_pattern prev s) = count_fences s"
  by (induction s arbitrary: prev rule: count_fences.induct)
     (simp_all add: findall_from_Cons findall_from_Nil fence_match fence_match_short)

text \<open>
  Claim C5. The code block count of a text is the number of its occurrences of three
  backticks divided by two, rounded down; a text with exactly three fences has the
  count 1.
\<close>

theorem code_blocks_is_half_the_fences:
  "code_blocks (complexity_stats content) = count_fences content div 2
   \<and> count_fences (py ''```\<newline>x\<newline>```\<newline>```'') = 3
   \<and> code_blocks (complexity_stats (py ''```\<newline>x\<newline>```\<newline>```'')) = 1"
proof -
  have g: "code_blocks (complexity_stats c) = count_fences c div 2" for c
    by (simp add: complexity_stats_def Let_def findall_def fences_counted)
  have "count_fences (py ''```\<newline>x\<newline>```\<newline>```'') = 3"
    by (simp add: py_def)
  with g show ?thesis by simp
qed


section \<open>Properties of the two entry points\<close>

lemma md_files_simps [simp]:
  "md_files r [] = []"
  "md_files r (f # fs) = (if endswith f (py ''.md'') then [join r f] else []) @ md_files r fs"
  by (simp_all add: md_files_def)

lemma md_paths_simps [simp]:
  "md_paths [] = []"
  "md_paths ((r, ds, fs) # w) = md_files r fs @ md_paths w"
  "md_paths (w @ w') = md_paths w @ md_paths w'"
  by (simp_all add: md_paths_def)

lemma each_h_append:
  "each_h rd (ps @ qs) st = (case each_h rd ps st of Inl e \<Rightarrow> Inl e | Inr st' \<Rightarrow> each_h rd qs st')"
  by (induction rd ps st rule: each_h.induct) (auto split: sum.splits)

lemma each_c_append:
  "each_c rd (ps @ qs) st = (case each_c rd ps st of Inl e \<Rightarrow> Inl e | Inr st' \<Rightarrow> each_c rd qs st')"
  by (induction rd ps st rule: each_c.induct) (auto split: sum.splits)

lemma files_loop_h_each: "files_loop_h rd r fs st = each_h rd (md_files r fs) st"
  by (induction rd r fs st rule: files_loop_h.induct) (auto simp: Let_def split: sum.splits)

lemma walk_loop_h_each: "walk_loop_h rd w st = each_h rd (md_paths w) st"
  by (induction rd w st rule: walk_loop_h.induct)
     (auto simp: files_loop_h_each each_h_append split: sum.splits)

lemma files_loop_c_each: "files_loop_c rd r fs st = each_c rd (md_files r fs) st"
  by (induction rd r fs st rule: files_loop_c.induct) (auto simp: Let_def split: sum.splits)

lemma walk_loop_c_each: "walk_loop_c rd w st = each_c rd (md_paths w) st"
  by (induction rd w st rule: walk_loop_c.induct)
     (auto simp: files_loop_c_each each_c_append split: sum.splits)

lemma walk_md_under:
  "mset (md_under d es) = mset (md_files d (filenames es)) + mset (md_paths (walk_subdirs d es))"
  by (induction d es rule: md_under.induct) (auto simp: ac_simps)

lemma md_paths_walk: "mset (md_paths (walk d es)) = mset (md_under d es)"
  using walk_md_under[of d es] by simp

declare walk.simps [simp del]

lemma each_h_opened:
  "each_h rd ps (opened, acc) = Inr (opened', acc') \<Longrightarrow> opened' = opened @ ps"
  by (induction rd ps "(opened, acc)" arbitrary: opened acc rule: each_h.induct)
     (auto split: sum.splits)

lemma each_c_opened:
  "each_c rd ps (opened, acc) = Inr (opened', acc') \<Longrightarrow> opened' = opened @ ps"
  by (induction rd ps "(opened, acc)" arbitrary: opened acc rule: each_c.induct)
     (auto split: sum.splits if_splits)

lemma each_h_total:
  "list_all (\<lambda>p. \<exists>c. rd p = Inr c) ps \<Longrightarrow> \<exists>st'. each_h rd ps st = Inr st'"
  by (induction rd ps st rule: each_h.induct)
     (auto simp: check_heading_hierarchy_def split: sum.splits)

lemma each_c_total:
  "list_all (\<lambda>p. \<exists>c. rd p = Inr c) ps \<Longrightarrow> \<exists>st'. each_c rd ps st = Inr st'"
  by (induction rd ps st rule: each_c.induct)
     (auto simp: analyze_complexity_def split: sum.splits)

lemma each_h_cong:
  "(\<And>p. p \<in> set ps \<Longrightarrow> rd p = rd' p) \<Longrightarrow> each_h rd ps st = each_h rd' ps st"
  by (induction rd ps st rule: each_h.induct)
     (auto simp: check_heading_hierarchy_def split: sum.splits)

lemma each_c_cong:
  "(\<And>p. p \<in> set ps \<Longrightarrow> rd p = rd' p) \<Longrightarrow> each_c rd ps st = each_c rd' ps st"
  by (induction rd ps st rule: each_c.induct)
     (auto simp: analyze_complexity_def split: sum.splits)


lemma each_h_ok:
  "each_h rd ps (opened, acc) = Inr (opened', acc') \<Longrightarrow>
     (acc' = [] \<longleftrightarrow> acc = [] \<and> list_all (\<lambda>p. check_heading_hierarchy rd p = Inr []) ps)"
  by (induction rd ps "(opened, acc)" arbitrary: opened acc rule: each_h.induct)
     (auto split: sum.splits)

lemma each_c_high:
  "each_c rd ps (opened, acc) = Inr (opened', acc') \<Longrightarrow>
     set acc' = set acc \<union> {(p, st). p \<in> set ps \<and> analyze_complexity rd p = Inr st \<and> 50 < complexity st}"
proof (induction rd ps "(opened, acc)" arbitrary: opened acc rule: each_c.induct)
  case (1 rd st)
  then show ?case by simp
next
  case (2 rd file_path ps opened high)
  from "2.prems" obtain stats where a: "analyze_complexity rd file_path = Inr stats"
    by (auto split: sum.splits)
  let ?high = "if 50 < complexity stats then high @ [(file_path, stats)] else high"
  from "2.prems" a have "each_c rd ps (opened @ [file_path], ?high) = Inr (opened', acc')"
    by simp
  from "2.hyps"[OF a this] a show ?case by auto
qed

lemma main_heading_Inr:
  "main_heading docs rd = Inr r \<longleftrightarrow>
     (\<exists>st. each_h rd (md_paths (walk (py ''docs'') docs)) ([], []) = Inr st \<and> r = report_h st)"
  by (auto simp: main_heading_def walk_loop_h_each split: sum.splits)

lemma main_complexity_Inr:
  "main_complexity docs rd = Inr r \<longleftrightarrow>
     (\<exists>st. each_c rd (md_paths (walk (py ''docs'') docs)) ([], []) = Inr st \<and> r = report_c st)"
  by (auto simp: main_complexity_def walk_loop_c_each split: sum.splits)

lemma report_h_fields [simp]:
  "files_opened (report_h (opened, acc)) = opened"
  "exit_code (report_h (opened, acc)) = (if acc = [] then 0 else 1)"
  by (simp_all add: report_h_def)

lemma report_c_fields [simp]:
  "files_opened (report_c (opened, acc)) = opened"
  "exit_code (report_c (opened, acc)) = (if acc = [] then 0 else 1)"
  by (simp_all add: report_c_def)

text \<open>The two scripts on the example tree.\<close>

lemma score_small: "score 0 0 0 0 = 0" "score (Suc (Suc 0)) 0 0 0 = 2"
proof -
  show "score 0 0 0 0 = 0" by code_simp
  have "score 2 0 0 0 = 2" by code_simp
  then show "score (Suc (Suc 0)) 0 0 0 = 2" by (simp add: numeral_2_eq_2)
qed

lemmas pattern_defs = heading_line_pattern_def link_pattern_def fence_pattern_def list_pattern_def

lemma stats_empty:
  "complexity_stats [] = \<lparr>headings = 0, links = 0, code_blocks = 0, lists_count = 0, complexity = 0\<rparr>"
  by (simp add: complexity_stats_def eval_simps pattern_defs score_small)

lemma stats_two_headings:
  "complexity_stats (py ''# A\<newline>### B'')
     = \<lparr>headings = 2, links = 0, code_blocks = 0, lists_count = 0, complexity = 2\<rparr>"
  by (simp add: complexity_stats_def eval_simps pattern_defs is_bullet_def score_small)

lemma issues_empty: "hierarchy_issues [] = []"
  by (simp add: hierarchy_issues_def headings_of_def eval_simps)

lemma issues_two_headings:
  "hierarchy_issues (py ''# A\<newline>### B'')
     = [py ''Heading level jump: H1 to H3 - '' @ [39] @ py ''B'' @ [39]]"
  by (simp add: hierarchy_issues_def headings_of_def eval_simps)
     (simp add: py_def issue_text_def str_nat.simps)

lemma example_walk:
  "walk (py ''docs'') example_docs =
     [(py ''docs'', [py ''sub''], [py ''a.md'', py ''b.txt'']),
      (py ''docs/sub'', [py ''deep''], [py ''c.md'']),
      (py ''docs/sub/deep'', [], [py ''d.md'', py ''e.mdx''])]"
  by (simp add: example_docs_def walk.simps join_def py_def)

lemma example_md_under:
  "md_under (py ''docs'') example_docs = [py ''docs/a.md'', py ''docs/sub/c.md'', py ''docs/sub/deep/d.md'']"
  by (simp add: example_docs_def join_def endswith_def py_def)

lemma example_facts:
  "example_reader (py ''docs/a.md'') = Inr (py ''# A\<newline>### B'')"
  "example_reader (py ''docs/sub/c.md'') = Inr []"
  "example_reader (py ''docs/sub/deep/d.md'') = Inr []"
  "endswith (py ''a.md'') (py ''.md'')" "\<not> endswith (py ''b.txt'') (py ''.md'')"
  "endswith (py ''c.md'') (py ''.md'')" "endswith (py ''d.md'') (py ''.md'')"
  "\<not> endswith (py ''e.mdx'') (py ''.md'')"
  "join (py ''docs'') (py ''a.md'') = py ''docs/a.md''"
  "join (py ''docs/sub'') (py ''c.md'') = py ''docs/sub/c.md''"
  "join (py ''docs/sub/deep'') (py ''d.md'') = py ''docs/sub/deep/d.md''"
  by (simp_all add: example_reader_def endswith_def join_def py_def)

lemma example_walk_loop_h:
  "walk_loop_h example_reader (walk (py ''docs'') example_docs) ([], []) =
     Inr ([py ''docs/a.md'', py ''docs/sub/c.md'', py ''docs/sub/deep/d.md''],
          [py ''docs/a.md: Heading level jump: H1 to H3 - '' @ [39] @ py ''B'' @ [39]])"
  by (simp add: example_walk example_facts check_heading_hierarchy_def
        issues_empty issues_two_headings Let_def)
     (simp add: py_def)

lemma example_walk_loop_c:
  "walk_loop_c example_reader (walk (py ''docs'') example_docs) ([], []) =
     Inr ([py ''docs/a.md'', py ''docs/sub/c.md'', py ''docs/sub/deep/d.md''], [])"
  by (simp add: example_walk example_facts analyze_complexity_def
        stats_empty stats_two_headings Let_def)





lemma set_md_paths_walk: "set (md_paths (walk d es)) = set (md_under d es)"
  using md_paths_walk[of d es] by (metis set_mset_mset)

text \<open>
  Claim C8. A run is a function of the tree and of the texts of the \<^verbatim>\<open>.md\<close> files it
  reads: two runs of a script over the same tree, with readers that give the same for
  every such file, end alike, with the same files opened, the same lines printed and
  the same exit code, or with the same exception. What else the readers give, for
  files the script does not select, cannot change the result.
\<close>

theorem runs_depend_only_on_md_contents:
  assumes "\<forall>p \<in> set (md_under (py ''docs'') docs). rd p = rd' p"
  shows "main_heading docs rd = main_heading docs rd'
         \<and> main_complexity docs rd = main_complexity docs rd'"
proof -
  have agree: "\<And>p. p \<in> set (md_paths (walk (py ''docs'') docs)) \<Longrightarrow> rd p = rd' p"
    using assms by (simp add: set_md_paths_walk)
  have "each_h rd (md_paths (walk (py ''docs'') docs)) ([], [])
      = each_h rd' (md_paths (walk (py ''docs'') docs)) ([], [])"
    by (rule each_h_cong) (rule agree)
  moreover have "each_c rd (md_paths (walk (py ''docs'') docs)) ([], [])
      = each_c rd' (md_paths (walk (py ''docs'') docs)) ([], [])"
    by (rule each_c_cong) (rule agree)
  ultimately show ?thesis
    by (simp add: main_heading_def main_complexity_def walk_loop_h_each walk_loop_c_each)
qed

theorem runs_depend_only_on_md_contents_witness:
  "list_all (\<lambda>p. example_reader p = other_reader p) (md_under (py ''docs'') example_docs)
   \<and> example_reader (py ''docs/b.txt'') \<noteq> other_reader (py ''docs/b.txt'')
   \<and> main_heading example_docs example_reader = main_heading example_docs other_reader
   \<and> main_complexity example_docs example_reader = main_complexity example_docs other_reader"
proof -
  have agree: "\<forall>p \<in> set (md_under (py ''docs'') example_docs). example_reader p = other_reader p"
    by (simp add: example_md_under example_reader_def other_reader_def) (simp add: py_def)
  have differ: "example_reader (py ''docs/b.txt'') \<noteq> other_reader (py ''docs/b.txt'')"
    by (simp add: example_reader_def other_reader_def py_def)
  from runs_depend_only_on_md_contents [OF agree] agree differ show ?thesis
    by (simp add: list_all_iff)
qed

text \<open>
  Claim C4 as stated fails. Neither script catches what \<^verbatim>\<open>open\<close> and \<^verbatim>\<open>read\<close> raise. With
  one \<^verbatim>\<open>.md\<close> file that cannot be decoded, the loop is entered with an empty list and
  raises in its first iteration: the run ends with status 1 although no issue and no
  flagged file was collected.
\<close>

theorem exit_code_claim_counterexample:
  "walk (py ''docs'') undecodable_docs = [(py ''docs'', [], [py ''bad.md''])]
   \<and> files_loop_h undecodable_reader (py ''docs'') [py ''bad.md''] ([], []) = Inl UnicodeDecodeError
   \<and> main_heading undecodable_docs undecodable_reader = Inl UnicodeDecodeError
   \<and> process_exit_status (main_heading undecodable_docs undecodable_reader) = 1
   \<and> files_loop_c undecodable_reader (py ''docs'') [py ''bad.md''] ([], []) = Inl UnicodeDecodeError
   \<and> main_complexity undecodable_docs undecodable_reader = Inl UnicodeDecodeError
   \<and> process_exit_status (main_complexity undecodable_docs undecodable_reader) = 1"
proof -
  have w: "walk (py ''docs'') undecodable_docs = [(py ''docs'', [], [py ''bad.md''])]"
    by (simp add: undecodable_docs_def walk.simps)
  have e: "endswith (py ''bad.md'') (py ''.md'')"
    by (simp add: endswith_def py_def)
  have h: "files_loop_h undecodable_reader (py ''docs'') [py ''bad.md''] ([], []) = Inl UnicodeDecodeError"
    by (simp add: e check_heading_hierarchy_def undecodable_reader_def Let_def)
  have c: "files_loop_c undecodable_reader (py ''docs'') [py ''bad.md''] ([], []) = Inl UnicodeDecodeError"
    by (simp add: e analyze_complexity_def undecodable_reader_def Let_def)
  have mh: "main_heading undecodable_docs undecodable_reader = Inl UnicodeDecodeError"
    by (simp add: main_heading_def w e check_heading_hierarchy_def undecodable_reader_def Let_def)
  have mc: "main_complexity undecodable_docs undecodable_reader = Inl UnicodeDecodeError"
    by (simp add: main_complexity_def w e analyze_complexity_def undecodable_reader_def Let_def)
  from w h c mh mc show ?thesis by (simp add: process_exit_status_def)
qed

text \<open>
  Claim C4, amended. When the loops of a script end without an exception, the script
  exits, with code 0 if and only if the list it collected is empty and with code 1 if
  and only if it is not; the list of issues is empty exactly when no opened file has a
  hierarchy issue, the list of flagged files exactly when no opened file has a score
  above 50. If every \<^verbatim>\<open>.md\<close> file under \<^verbatim>\<open>docs\<close> can be read, both scripts do end
  this way.
\<close>

theorem exit_code_reflects_findings:
  "(walk_loop_h rd (walk (py ''docs'') docs) ([], []) = Inr (opened, all_issues) \<longrightarrow>
      (\<exists>r. main_heading docs rd = Inr r
           \<and> (exit_code r = 0 \<longleftrightarrow> all_issues = []) \<and> (exit_code r = 1 \<longleftrightarrow> all_issues \<noteq> []))
      \<and> (all_issues = [] \<longleftrightarrow> list_all (\<lambda>p. check_heading_hierarchy rd p = Inr []) opened))
   \<and> (walk_loop_c rd (walk (py ''docs'') docs) ([], []) = Inr (opened', high_complexity_files) \<longrightarrow>
      (\<exists>r. main_complexity docs rd = Inr r
           \<and> (exit_code r = 0 \<longleftrightarrow> high_complexity_files = [])
           \<and> (exit_code r = 1 \<longleftrightarrow> high_complexity_files \<noteq> []))
      \<and> (high_complexity_files = [] \<longleftrightarrow>
           list_all (\<lambda>p. \<forall>st. analyze_complexity rd p = Inr st \<longrightarrow> \<not> 50 < complexity st) opened'))
   \<and> (list_all (\<lambda>p. \<exists>content. rd p = Inr content) (md_under (py ''docs'') docs) \<longrightarrow>
        (\<exists>r. main_heading docs rd = Inr r) \<and> (\<exists>r. main_complexity docs rd = Inr r))"
proof (intro conjI impI)
  assume a: "walk_loop_h rd (walk (py ''docs'') docs) ([], []) = Inr (opened, all_issues)"
  then show "\<exists>r. main_heading docs rd = Inr r
           \<and> (exit_code r = 0 \<longleftrightarrow> all_issues = []) \<and> (exit_code r = 1 \<longleftrightarrow> all_issues \<noteq> [])"
    by (simp add: main_heading_def)
  from a have e: "each_h rd (md_paths (walk (py ''docs'') docs)) ([], []) = Inr (opened, all_issues)"
    by (simp add: walk_loop_h_each)
  from each_h_opened[OF e] each_h_ok[OF e]
  show "all_issues = [] \<longleftrightarrow> list_all (\<lambda>p. check_heading_hierarchy rd p = Inr []) opened"
    by simp
next
  assume a: "walk_loop_c rd (walk (py ''docs'') docs) ([], []) = Inr (opened', high_complexity_files)"
  then show "\<exists>r. main_complexity docs rd = Inr r
           \<and> (exit_code r = 0 \<longleftrightarrow> high_complexity_files = [])
           \<and> (exit_code r = 1 \<longleftrightarrow> high_complexity_files \<noteq> [])"
    by (simp add: main_complexity_def)
  from a have e: "each_c rd (md_paths (walk (py ''docs'') docs)) ([], [])
      = Inr (opened', high_complexity_files)"
    by (simp add: walk_loop_c_each)
  from each_c_opened[OF e] have o: "opened' = md_paths (walk (py ''docs'') docs)" by simp
  from each_c_high[OF e] have sh:
    "set high_complexity_files = {(p, st). p \<in> set opened' \<and> analyze_complexity rd p = Inr st
        \<and> 50 < complexity st}"
    using o by simp
  then have "high_complexity_files = [] \<longleftrightarrow>
      (\<forall>p \<in> set opened'. \<forall>st. analyze_complexity rd p = Inr st \<longrightarrow> \<not> 50 < complexity st)"
  proof -
    have "high_complexity_files = [] \<longleftrightarrow> set high_complexity_files = {}" by simp
    also have "\<dots> \<longleftrightarrow> {(p, st). p \<in> set opened' \<and> analyze_complexity rd p = Inr st
        \<and> 50 < complexity st} = {}"
      using sh by simp
    also have "\<dots> \<longleftrightarrow>
        (\<forall>p \<in> set opened'. \<forall>st. analyze_complexity rd p = Inr st \<longrightarrow> \<not> 50 < complexity st)"
      by auto
    finally show ?thesis .
  qed
  then show "high_complexity_files = [] \<longleftrightarrow>
      list_all (\<lambda>p. \<forall>st. analyze_complexity rd p = Inr st \<longrightarrow> \<not> 50 < complexity st) opened'"
    by (simp add: list_all_iff)
next
  assume "list_all (\<lambda>p. \<exists>content. rd p = Inr content) (md_under (py ''docs'') docs)"
  then have ok: "list_all (\<lambda>p. \<exists>content. rd p = Inr content) (md_paths (walk (py ''docs'') docs))"
    by (simp add: list_all_iff set_md_paths_walk)
  from each_h_total[OF ok] show "\<exists>r. main_heading docs rd = Inr r"
    by (metis main_heading_Inr)
  from each_c_total[OF ok] show "\<exists>r. main_complexity docs rd = Inr r"
    by (metis main_complexity_Inr)
qed

theorem exit_code_reflects_findings_witness:
  "walk_loop_h example_reader (walk (py ''docs'') example_docs) ([], []) =
     Inr ([py ''docs/a.md'', py ''docs/sub/c.md'', py ''docs/sub/deep/d.md''],
          [py ''docs/a.md: Heading level jump: H1 to H3 - '' @ [39] @ py ''B'' @ [39]])
   \<and> walk_loop_c example_reader (walk (py ''docs'') example_docs) ([], []) =
     Inr ([py ''docs/a.md'', py ''docs/sub/c.md'', py ''docs/sub/deep/d.md''], [])
   \<and> list_all (\<lambda>p. \<exists>content. example_reader p = Inr content) (md_under (py ''docs'') example_docs)
   \<and> (\<exists>r. main_heading example_docs example_reader = Inr r \<and> exit_code r = 1)
   \<and> (\<exists>r. main_complexity example_docs example_reader = Inr r \<and> exit_code r = 0)"
proof -
  let ?opened = "[py ''docs/a.md'', py ''docs/sub/c.md'', py ''docs/sub/deep/d.md'']"
  let ?issues = "[py ''docs/a.md: Heading level jump: H1 to H3 - '' @ [39] @ py ''B'' @ [39]]"
  have readable:
    "list_all (\<lambda>p. \<exists>content. example_reader p = Inr content) (md_under (py ''docs'') example_docs)"
    by (simp add: example_md_under example_reader_def)
  note t = exit_code_reflects_findings
    [of example_reader example_docs ?opened ?issues ?opened "[]"]
  from t example_walk_loop_h
  have "\<exists>r. main_heading example_docs example_reader = Inr r \<and> (exit_code r = 1 \<longleftrightarrow> ?issues \<noteq> [])"
    by blast
  then have h: "\<exists>r. main_heading example_docs example_reader = Inr r \<and> exit_code r = 1"
    by simp
  from t example_walk_loop_c
  have "\<exists>r. main_complexity example_docs example_reader = Inr r
      \<and> (exit_code r = 0 \<longleftrightarrow> ([] :: (pystr \<times> stats) list) = [])"
    by blast
  then have c: "\<exists>r. main_complexity example_docs example_reader = Inr r \<and> exit_code r = 0"
    by simp
  from h c readable example_walk_loop_h example_walk_loop_c show ?thesis by blast
qed


section \<open>Properties of the score\<close>

text \<open>
  Rounding leaves every half of a natural number below \<open>2\<^sup>5\<^sup>3\<close> unchanged. So without
  list items the score is the exact weighted sum; the product by the float nearest to
  3/10 is rounded (\<open>score_three_list_items\<close>).
\<close>

lemma ilog2_le: "1 \<le> n \<Longrightarrow> 2 ^ ilog2 n \<le> n"
proof (induction n rule: ilog2.induct)
  case (1 n)
  show ?case
  proof (cases "n < 2")
    case True
    with "1.prems" show ?thesis by (simp add: ilog2.simps)
  next
    case False
    then have "1 \<le> n div 2" by simp
    with "1.IH"[OF False] have "2 ^ ilog2 (n div 2) \<le> n div 2" by simp
    then have "2 * 2 ^ ilog2 (n div 2) \<le> 2 * (n div 2)" by simp
    also have "\<dots> \<le> n" by simp
    finally show ?thesis using False by (subst ilog2.simps) simp
  qed
qed

lemma round_half_even_of_int [simp]: "round_half_even (of_int n) = n"
  by (simp add: round_half_even_def)

lemma fl_exact:
  assumes "0 < x" and "x / 2 powi (binade x - 52) = of_int n"
  shows "fl x = x"
proof -
  have u: "(2::rat) powi (binade x - 52) \<noteq> 0" by simp
  from assms have "fl x = of_int n * 2 powi (binade x - 52)"
    by (simp add: fl_def Let_def)
  also have "\<dots> = x / 2 powi (binade x - 52) * 2 powi (binade x - 52)"
    using assms(2) by simp
  also have "\<dots> = x" using u by simp
  finally show ?thesis .
qed

lemma binade_bound:
  assumes "0 < x" and "x < 2 ^ 52"
  shows "binade x \<le> 51"
proof (cases "1 \<le> x")
  case True
  then have n1: "1 \<le> nat \<lfloor>x\<rfloor>" by (simp add: le_nat_iff)
  from ilog2_le[OF n1] have "(2::nat) ^ ilog2 (nat \<lfloor>x\<rfloor>) \<le> nat \<lfloor>x\<rfloor>" .
  moreover have "nat \<lfloor>x\<rfloor> < 2 ^ 52"
  proof -
    have "\<lfloor>x\<rfloor> < 2 ^ 52" using assms(2) by (simp add: floor_less_iff)
    then show ?thesis using True by (simp add: nat_less_iff)
  qed
  ultimately have "(2::nat) ^ ilog2 (nat \<lfloor>x\<rfloor>) < 2 ^ 52" by linarith
  then have "ilog2 (nat \<lfloor>x\<rfloor>) < 52"
    by (rule power_less_imp_less_exp[of "2::nat", rotated]) simp
  with True show ?thesis by (simp add: binade_def)
next
  case False
  then show ?thesis by (simp add: binade_def)
qed

lemma fl_half_nat:
  assumes "N < 2 ^ 53"
  shows "fl (of_nat N / 2) = of_nat N / 2"
proof (cases "N = 0")
  case True
  then show ?thesis by (simp add: fl_def)
next
  case False
  let ?x = "of_nat N / 2 :: rat"
  have pos: "0 < ?x" using False by simp
  have "(of_nat N :: rat) < of_nat (2 ^ 53)" using assms by (simp only: of_nat_less_iff)
  then have lt: "?x < 2 ^ 52" by simp
  from binade_bound[OF pos lt] have e: "binade ?x \<le> 51" .
  define j where "j = nat (51 - binade ?x)"
  have bj: "binade ?x - 52 = - int (Suc j)" using e by (simp add: j_def)
  have "(2::rat) powi (binade ?x - 52) = 1 / 2 ^ Suc j"
    unfolding bj by (simp only: power_int_minus power_int_of_nat inverse_eq_divide)
  then have "?x / 2 powi (binade ?x - 52) = ?x * 2 ^ Suc j"
    by simp
  also have "\<dots> = of_nat N * 2 ^ j" by simp
  also have "\<dots> = of_int (int N * 2 ^ j)" by simp
  finally show ?thesis by (rule fl_exact[OF pos])
qed

lemma fl_nat:
  assumes "n < 2 ^ 52"
  shows "fl (of_nat n) = of_nat n"
proof -
  have "2 * n < 2 ^ 53" using assms by simp
  from fl_half_nat[OF this] show ?thesis by simp
qed

lemma fl_one_half: "fl (1 / 2) = 1 / 2"
  using fl_half_nat[of 1] by simp

text \<open>The literal \<^verbatim>\<open>0.3\<close> is the float \<^verbatim>\<open>0x1.3333333333333p-2\<close>.\<close>

lemma fl_three_tenths: "fl (3 / 10) = 5404319552844595 / 18014398509481984"
  by code_simp

lemma score_without_lists:
  assumes "2 * h + l + 4 * c < 2 ^ 52"
  shows "score h l c 0 = of_nat h + of_nat l / 2 + 2 * of_nat c"
proof -
  have h: "float_of_int h = of_nat h"
    unfolding float_of_int_def using assms by (intro fl_nat) simp
  have l: "float_of_int l = of_nat l"
    unfolding float_of_int_def using assms by (intro fl_nat) simp
  have c: "float_of_int (c * 2) = 2 * of_nat c"
    unfolding float_of_int_def using fl_nat[of "c * 2"] assms by simp
  have lh: "fmul (of_nat l) (1 / 2) = of_nat l / 2"
    unfolding fmul_def using fl_half_nat[of l] assms by simp
  have s1: "fadd (of_nat h) (of_nat l / 2) = of_nat h + of_nat l / 2"
  proof -
    have eq: "of_nat h + of_nat l / 2 = (of_nat (2 * h + l) / 2 :: rat)" by simp
    have "fl (of_nat (2 * h + l) / 2) = of_nat (2 * h + l) / 2"
      using assms by (intro fl_half_nat) simp
    then show ?thesis unfolding fadd_def eq .
  qed
  have s2: "fadd (of_nat h + of_nat l / 2) (2 * of_nat c) = of_nat h + of_nat l / 2 + 2 * of_nat c"
  proof -
    have eq: "of_nat h + of_nat l / 2 + 2 * of_nat c = (of_nat (2 * h + l + 4 * c) / 2 :: rat)"
      by simp
    have "fl (of_nat (2 * h + l + 4 * c) / 2) = of_nat (2 * h + l + 4 * c) / 2"
      using assms by (intro fl_half_nat) simp
    then show ?thesis unfolding fadd_def eq .
  qed
  have z: "fmul (float_of_int 0) (fl (3 / 10)) = 0"
    by (simp add: fmul_def float_of_int_def fl_def)
  have s3: "fadd (of_nat h + of_nat l / 2 + 2 * of_nat c) 0 = of_nat h + of_nat l / 2 + 2 * of_nat c"
    using s2 unfolding fadd_def by (simp only: add_0_right)
  show ?thesis
    unfolding score_def h l c z fl_one_half lh s1 s2 s3 ..
qed

lemma score_three_list_items: "score 0 0 0 3 = 2026619832316723 / 2251799813685248"
  by code_simp

lemma heading_lines_simps:
  "heading_lines 0 = []"
  "heading_lines (Suc n) = 35 # 32 # 104 # 10 # heading_lines n"
  by (simp_all add: heading_lines_def py_def)

lemma heading_lines_headings:
  "prev = None \<or> prev = Some 10 \<Longrightarrow>
     length (findall_from heading_line_pattern prev (heading_lines n)) = n"
proof (induction n arbitrary: prev)
  case 0
  then show ?case
    by (auto simp: heading_lines_simps findall_from_Nil heading_line_pattern_def
          at_bol_def open_piece_def)
next
  case (Suc n)
  have "length (findall_from heading_line_pattern (Some 10) (heading_lines n)) = n"
    by (rule Suc.IH) simp
  with Suc.prems show ?case
    by (auto simp: heading_lines_simps findall_from_Cons heading_line_pattern_def at_bol_def
          open_piece_def push_def may_take_def dec_def is_hash_def)
qed

lemma heading_lines_links: "findall_from link_pattern prev (heading_lines n) = []"
  by (induction n arbitrary: prev)
     (simp_all add: heading_lines_simps findall_from_Nil findall_from_Cons link_pattern_def)

lemma count_fences_skip: "c \<noteq> 96 \<Longrightarrow> count_fences (c # s) = count_fences s"
proof (cases s)
  case Nil
  then show ?thesis by simp
next
  case (Cons b t)
  assume "c \<noteq> 96"
  then show ?thesis using Cons by (cases t) simp_all
qed

lemma heading_lines_fences: "count_fences (heading_lines n) = 0"
  by (induction n) (simp_all add: heading_lines_simps count_fences_skip)

lemma heading_lines_lists:
  "prev = None \<or> prev = Some 10 \<Longrightarrow> findall_from list_pattern prev (heading_lines n) = []"
proof (induction n arbitrary: prev)
  case 0
  then show ?case
    by (auto simp: heading_lines_simps findall_from_Nil list_pattern_def at_bol_def open_piece_def)
next
  case (Suc n)
  have "findall_from list_pattern (Some 10) (heading_lines n) = []"
    by (rule Suc.IH) simp
  with Suc.prems show ?case
    by (auto simp: heading_lines_simps findall_from_Cons list_pattern_def at_bol_def
          open_piece_def push_def may_take_def dec_def is_space_def is_bullet_def)
qed

lemma stats_heading_lines:
  "complexity_stats (heading_lines n) =
     \<lparr>headings = n, links = 0, code_blocks = 0, lists_count = 0, complexity = score n 0 0 0\<rparr>"
  by (simp add: complexity_stats_def Let_def findall_def heading_lines_headings
        heading_lines_links heading_lines_lists fences_counted heading_lines_fences)


lemma each_c_high_iff:
  assumes "walk_loop_c rd (walk (py ''docs'') docs) ([], []) = Inr (opened, high_complexity_files)"
  shows "(p, st) \<in> set high_complexity_files \<longleftrightarrow>
           p \<in> set opened \<and> analyze_complexity rd p = Inr st \<and> 50 < complexity st"
proof -
  from assms have e: "each_c rd (md_paths (walk (py ''docs'') docs)) ([], [])
      = Inr (opened, high_complexity_files)"
    by (simp add: walk_loop_c_each)
  from each_c_opened[OF e] have o: "opened = md_paths (walk (py ''docs'') docs)" by simp
  from each_c_high[OF e] o show ?thesis by auto
qed

text \<open>
  Claim C2. The files the analyzer collects as high complexity are exactly the opened
  files whose score is greater than 50: a file with the score 50 is not among them,
  and a file with 10 headings and no link, code block or list item has the score 10
  and is not either.
\<close>

theorem flagged_iff_score_above_50:
  "(walk_loop_c rd (walk (py ''docs'') docs) ([], []) = Inr (opened, high_complexity_files) \<longrightarrow>
      (\<forall>p st. (p, st) \<in> set high_complexity_files \<longleftrightarrow>
          p \<in> set opened \<and> analyze_complexity rd p = Inr st \<and> 50 < complexity st))
   \<and> (headings (complexity_stats content) = 10 \<and> links (complexity_stats content) = 0
        \<and> code_blocks (complexity_stats content) = 0 \<and> lists_count (complexity_stats content) = 0
        \<longrightarrow> complexity (complexity_stats content) = 10
            \<and> \<not> 50 < complexity (complexity_stats content))"
proof (intro conjI impI allI)
  fix p st
  assume "walk_loop_c rd (walk (py ''docs'') docs) ([], []) = Inr (opened, high_complexity_files)"
  then show "(p, st) \<in> set high_complexity_files \<longleftrightarrow>
      p \<in> set opened \<and> analyze_complexity rd p = Inr st \<and> 50 < complexity st"
    by (rule each_c_high_iff)
next
  assume a: "headings (complexity_stats content) = 10 \<and> links (complexity_stats content) = 0
        \<and> code_blocks (complexity_stats content) = 0 \<and> lists_count (complexity_stats content) = 0"
  have "complexity (complexity_stats content)
      = score (headings (complexity_stats content)) (links (complexity_stats content))
          (code_blocks (complexity_stats content)) (lists_count (complexity_stats content))"
    by (simp add: complexity_stats_def Let_def)
  also have "\<dots> = score 10 0 0 0" using a by simp
  also have "\<dots> = 10" using score_without_lists[of 10 0 0] by simp
  finally show c: "complexity (complexity_stats content) = 10" .
  show "\<not> 50 < complexity (complexity_stats content)" unfolding c by simp
qed

lemma score_heading_lines: "n < 2 ^ 51 \<Longrightarrow> score n 0 0 0 = of_nat n"
  using score_without_lists[of n 0 0] by simp

lemma sized_facts:
  "sized_reader (py ''docs/ten.md'') = Inr (heading_lines 10)"
  "sized_reader (py ''docs/fifty.md'') = Inr (heading_lines 50)"
  "sized_reader (py ''docs/sixty.md'') = Inr (heading_lines 60)"
  "endswith (py ''ten.md'') (py ''.md'')" "endswith (py ''fifty.md'') (py ''.md'')"
  "endswith (py ''sixty.md'') (py ''.md'')"
  "join (py ''docs'') (py ''ten.md'') = py ''docs/ten.md''"
  "join (py ''docs'') (py ''fifty.md'') = py ''docs/fifty.md''"
  "join (py ''docs'') (py ''sixty.md'') = py ''docs/sixty.md''"
  by (simp_all add: sized_reader_def endswith_def join_def py_def)

lemma sized_stats:
  "complexity_stats (heading_lines 10) =
     \<lparr>headings = 10, links = 0, code_blocks = 0, lists_count = 0, complexity = 10\<rparr>"
  "complexity_stats (heading_lines 50) =
     \<lparr>headings = 50, links = 0, code_blocks = 0, lists_count = 0, complexity = 50\<rparr>"
  "complexity_stats (heading_lines 60) =
     \<lparr>headings = 60, links = 0, code_blocks = 0, lists_count = 0, complexity = 60\<rparr>"
  using score_heading_lines[of 10] score_heading_lines[of 50] score_heading_lines[of 60]
  by (simp_all add: stats_heading_lines)

lemma sized_walk_loop_c:
  "walk_loop_c sized_reader (walk (py ''docs'') sized_docs) ([], []) =
     Inr ([py ''docs/ten.md'', py ''docs/fifty.md'', py ''docs/sixty.md''],
          [(py ''docs/sixty.md'',
            \<lparr>headings = 60, links = 0, code_blocks = 0, lists_count = 0, complexity = 60\<rparr>)])"
  by (simp add: sized_docs_def walk.simps sized_facts analyze_complexity_def sized_stats Let_def)

theorem flagged_iff_score_above_50_witness:
  "walk_loop_c sized_reader (walk (py ''docs'') sized_docs) ([], []) =
     Inr ([py ''docs/ten.md'', py ''docs/fifty.md'', py ''docs/sixty.md''],
          [(py ''docs/sixty.md'',
            \<lparr>headings = 60, links = 0, code_blocks = 0, lists_count = 0, complexity = 60\<rparr>)])
   \<and> analyze_complexity sized_reader (py ''docs/fifty.md'') =
       Inr \<lparr>headings = 50, links = 0, code_blocks = 0, lists_count = 0, complexity = 50\<rparr>
   \<and> (py ''docs/fifty.md'',
        \<lparr>headings = 50, links = 0, code_blocks = 0, lists_count = 0, complexity = 50\<rparr>)
       \<notin> set [(py ''docs/sixty.md'',
            \<lparr>headings = 60, links = 0, code_blocks = 0, lists_count = 0, complexity = 60\<rparr>)]
   \<and> headings (complexity_stats (heading_lines 10)) = 10
   \<and> links (complexity_stats (heading_lines 10)) = 0
   \<and> code_blocks (complexity_stats (heading_lines 10)) = 0
   \<and> lists_count (complexity_stats (heading_lines 10)) = 0
   \<and> complexity (complexity_stats (heading_lines 10)) = 10"
proof -
  let ?opened = "[py ''docs/ten.md'', py ''docs/fifty.md'', py ''docs/sixty.md'']"
  let ?s50 = "\<lparr>headings = 50, links = 0, code_blocks = 0, lists_count = 0, complexity = 50\<rparr>"
  let ?high = "[(py ''docs/sixty.md'',
            \<lparr>headings = 60, links = 0, code_blocks = 0, lists_count = 0, complexity = 60\<rparr>)]"
  note t = flagged_iff_score_above_50
    [of sized_reader sized_docs ?opened ?high "heading_lines 10"]
  have a50: "analyze_complexity sized_reader (py ''docs/fifty.md'') = Inr ?s50"
    by (simp add: analyze_complexity_def sized_facts sized_stats)
  from t sized_walk_loop_c
  have "(py ''docs/fifty.md'', ?s50) \<in> set ?high \<longleftrightarrow>
     py ''docs/fifty.md'' \<in> set ?opened
     \<and> analyze_complexity sized_reader (py ''docs/fifty.md'') = Inr ?s50 \<and> 50 < complexity ?s50"
    by blast
  then have nf: "(py ''docs/fifty.md'', ?s50) \<notin> set ?high" by simp
  have counts: "headings (complexity_stats (heading_lines 10)) = 10"
    "links (complexity_stats (heading_lines 10)) = 0"
    "code_blocks (complexity_stats (heading_lines 10)) = 0"
    "lists_count (complexity_stats (heading_lines 10)) = 0"
    by (simp_all add: stats_heading_lines)
  with t have "complexity (complexity_stats (heading_lines 10)) = 10" by blast
  with sized_walk_loop_c a50 nf counts show ?thesis by blast
qed





section \<open>Properties of the list item count\<close>

lemma space_not_bullet: "is_space c \<Longrightarrow> \<not> is_bullet c"
  by (auto simp: is_space_def is_bullet_def)

lemma is_space_nl [simp]: "is_space 10"
  by (simp add: is_space_def)

lemma bullet_not_nl: "is_bullet c \<Longrightarrow> c \<noteq> 10"
  by (auto simp: is_bullet_def)

lemma dropWhile_Cons_D: "dropWhile P s = x # xs \<Longrightarrow> x \<in> set s \<and> \<not> P x"
proof (induction s)
  case Nil
  then show ?case by simp
next
  case (Cons a s)
  then show ?case by (cases "P a") auto
qed

lemma list_tail_match:
  "rmatch list_tail prev s =
     (case dropWhile is_space s of
        c # d # rest \<Rightarrow>
          if is_bullet c \<and> is_space d then Some ([takeWhile is_space s, [c], [d]], rest) else None
      | _ \<Rightarrow> None)"
proof (induction s arbitrary: prev)
  case Nil
  then show ?case by (simp add: list_tail_def open_piece_def)
next
  case (Cons a s)
  show ?case
  proof (cases "is_space a")
    case True
    have fb: "rmatch [One is_bullet, One is_space] prev (a # s) = None"
      using space_not_bullet[OF True] by simp
    have step: "rmatch list_tail prev (a # s) =
        (case push a (rmatch list_tail (Some a) s) of Some m \<Rightarrow> Some m | None \<Rightarrow> None)"
      using True space_not_bullet[OF True]
      by (simp add: list_tail_def may_take_def dec_def open_piece_def split: option.splits)
    show ?thesis
      unfolding step Cons.IH using True
      by (auto simp: push_def split: list.splits dest: dropWhile_Cons_D)
  next
    case False
    then show ?thesis
      by (cases s) (auto simp: list_tail_def open_piece_def push_def)
  qed
qed

lemma list_pattern_match:
  "rmatch list_pattern prev s =
     (if at_bol prev \<and> item_line s
      then (case dropWhile is_space s of
              c # d # rest \<Rightarrow> Some ([[], takeWhile is_space s, [c], [d]], rest)
            | _ \<Rightarrow> None)
      else None)"
proof -
  have unfold: "rmatch list_pattern prev s =
      (if at_bol prev then open_piece (rmatch list_tail prev s) else None)"
    by (simp add: list_pattern_def list_tail_def)
  show ?thesis
  proof (cases "dropWhile is_space s")
    case Nil
    then show ?thesis
      by (simp add: unfold list_tail_match item_line_def open_piece_def
            del: dropWhile_eq_Nil_conv)
  next
    case (Cons c t)
    show ?thesis
    proof (cases t)
      case Nil
      with Cons show ?thesis by (simp add: unfold list_tail_match item_line_def open_piece_def)
    next
      case (Cons d rest)
      with \<open>dropWhile is_space s = c # t\<close> show ?thesis
        by (simp add: unfold list_tail_match item_line_def open_piece_def)
    qed
  qed
qed


lemma lines_of_nonempty: "s \<noteq> [] \<Longrightarrow> lines_of s \<noteq> []"
  by (cases s) (auto split: list.splits)

lemma lines_of_nl: "lines_of (10 # cs) = [10] # lines_of cs"
  by simp

lemma lines_of_other:
  "c \<noteq> 10 \<Longrightarrow> lines_of (c # cs) = (c # (if cs = [] then [] else hd (lines_of cs))) # tl (lines_of cs)"
  by (cases cs) (auto split: list.splits)

lemma hd_line_starts: "\<exists>t. hd (lines_of (d # r)) = d # t"
  by (auto split: list.splits)

lemma item_line_Nil [simp]: "\<not> item_line []" "\<not> item_line [10]"
  by (simp_all add: item_line_def)

lemma item_line_space: "is_space a \<Longrightarrow> item_line (a # l) = item_line l"
  by (simp add: item_line_def)

lemma item_line_start:
  "\<not> is_space c \<Longrightarrow> item_line (c # l) = (is_bullet c \<and> (case l of [] \<Rightarrow> False | d # _ \<Rightarrow> is_space d))"
  by (cases l) (simp_all add: item_line_def)

declare lines_of.simps(2) [simp del]

lemma match_lines:
  assumes "list_all is_space w" "is_bullet c" "is_space d"
  shows "length (filter item_line (lines_of (w @ c # d # rest))) =
           Suc (length (filter item_line (if d = 10 then lines_of rest else tl (lines_of rest))))"
  using assms(1)
proof (induction w)
  case Nil
  have c: "c \<noteq> 10" "\<not> is_space c"
    using assms(2) bullet_not_nl space_not_bullet by blast+
  show ?case
  proof (cases "d = 10")
    case True
    then show ?thesis using c assms(2)
      by (simp add: lines_of_other lines_of_nl item_line_start)
  next
    case False
    have "lines_of (d # rest) = (d # (if rest = [] then [] else hd (lines_of rest))) # tl (lines_of rest)"
      using False by (rule lines_of_other)
    then show ?thesis using c assms(2,3) False
      by (simp add: lines_of_other item_line_start)
  qed
next
  case (Cons a w)
  then have a: "is_space a" and w: "list_all is_space w" by simp_all
  let ?X = "w @ c # d # rest"
  have X: "?X \<noteq> []" by simp
  show ?case
  proof (cases "a = 10")
    case True
    then show ?thesis using Cons.IH[OF w] by (simp add: lines_of_nl)
  next
    case False
    obtain l ls where l: "lines_of ?X = l # ls"
      using lines_of_nonempty[OF X] by (auto simp: neq_Nil_conv)
    have "lines_of (a # ?X) = (a # l) # ls"
      using lines_of_other[OF False, of ?X] X l by simp
    then have "length (filter item_line (lines_of (a # ?X)))
        = length (filter item_line (lines_of ?X))"
      using a l by (simp add: item_line_space)
    then show ?thesis using Cons.IH[OF w] by simp
  qed
qed

lemma first_line_item:
  "s \<noteq> [] \<Longrightarrow> item_line (hd (lines_of s)) \<Longrightarrow> item_line s"
proof (induction s)
  case Nil
  then show ?case by simp
next
  case (Cons c cs)
  show ?case
  proof (cases "c = 10")
    case True
    with Cons.prems show ?thesis by (simp add: lines_of_nl)
  next
    case False
    then have hd: "hd (lines_of (c # cs)) = c # (if cs = [] then [] else hd (lines_of cs))"
      by (simp add: lines_of_other)
    show ?thesis
    proof (cases "is_space c")
      case True
      with Cons.prems(2) hd have "item_line (if cs = [] then [] else hd (lines_of cs))"
        by (simp add: item_line_space)
      then have "cs \<noteq> []" "item_line (hd (lines_of cs))"
        by (auto split: if_splits)
      with Cons.IH True show ?thesis by (simp add: item_line_space)
    next
      case nsp: False
      show ?thesis
      proof (cases cs)
        case Nil
        with Cons.prems(2) hd nsp show ?thesis by (simp add: item_line_start)
      next
        case (Cons d r)
        obtain t where t: "hd (lines_of (d # r)) = d # t" using hd_line_starts by blast
        from Cons.prems(2) hd nsp Cons have "item_line (c # d # t)" by (simp add: t)
        with nsp Cons show ?thesis by (simp add: item_line_start)
      qed
    qed
  qed
qed


lemma list_scan:
  "length (findall_from list_pattern prev s) =
     length (filter item_line (if at_bol prev then lines_of s else tl (lines_of s)))"
proof (induction s arbitrary: prev rule: length_induct)
  case (1 s)
  have IH: "length (findall_from list_pattern p t) =
      length (filter item_line (if at_bol p then lines_of t else tl (lines_of t)))"
    if "length t < length s" for p t
    using "1.IH" that by blast
  show ?case
  proof (cases "at_bol prev \<and> item_line s")
    case True
    then obtain c d rest where dw: "dropWhile is_space s = c # d # rest"
      and c: "is_bullet c" and d: "is_space d"
      by (auto simp: item_line_def split: list.splits)
    let ?w = "takeWhile is_space s"
    have s: "s = ?w @ c # d # rest"
      using takeWhile_dropWhile_id[of is_space s] dw by simp
    have w: "list_all is_space ?w"
      by (simp add: list_all_iff) (meson set_takeWhileD)
    have m: "rmatch list_pattern prev s = Some ([[], ?w, [c], [d]], rest)"
      using True dw by (simp add: list_pattern_match)
    have "length s = length (?w @ c # d # rest)" using s by simp
    then have len: "length rest < length s" by simp
    have "findall_from list_pattern prev s =
        [[], ?w, [c], [d]] # findall_from list_pattern (Some d) rest"
      using m len by (subst findall_from.simps) simp
    then have "length (findall_from list_pattern prev s) =
        Suc (length (filter item_line (if at_bol (Some d) then lines_of rest else tl (lines_of rest))))"
      using IH[OF len] by simp
    also have "at_bol (Some d) = (d = 10)" by (simp add: at_bol_def)
    also have "Suc (length (filter item_line (if d = 10 then lines_of rest else tl (lines_of rest))))
        = length (filter item_line (lines_of (?w @ c # d # rest)))"
      using match_lines[OF w c d] by simp
    also have "?w @ c # d # rest = s" using s by simp
    finally show ?thesis using True by simp
  next
    case False
    then have m: "rmatch list_pattern prev s = None"
      by (auto simp: list_pattern_match)
    show ?thesis
    proof (cases s)
      case Nil
      with m show ?thesis by (simp add: findall_from_Nil)
    next
      case (Cons a cs)
      have step: "length (findall_from list_pattern prev s) =
          length (filter item_line (if at_bol (Some a) then lines_of cs else tl (lines_of cs)))"
        using m Cons IH[of cs "Some a"] by (simp add: findall_from_Cons)
      show ?thesis
      proof (cases "a = 10")
        case True
        with step Cons show ?thesis by (simp add: at_bol_def lines_of_nl)
      next
        case ne: False
        have l: "lines_of s = hd (lines_of s) # tl (lines_of cs)"
          using Cons ne by (simp add: lines_of_other)
        from step ne have step': "length (findall_from list_pattern prev s) =
            length (filter item_line (tl (lines_of cs)))"
          by (simp add: at_bol_def)
        show ?thesis
        proof (cases "at_bol prev")
          case True
          with False have "\<not> item_line s" by simp
          then have "\<not> item_line (hd (lines_of s))"
            using first_line_item[of s] Cons by blast
          with l have "filter item_line (lines_of s) = filter item_line (tl (lines_of cs))"
            by (metis filter.simps(2))
          with step' True show ?thesis by simp
        next
          case nb: False
          from l have "tl (lines_of s) = tl (lines_of cs)" by (metis list.sel(3))
          with step' nb show ?thesis by simp
        qed
      qed
    qed
  qed
qed


lemma lists_count_eval:
  "lists_count (complexity_stats content) = length (findall list_pattern content)"
  by (simp add: complexity_stats_def Let_def)

text \<open>
  Claim C6 as stated fails. In the text \<^verbatim>\<open>-\<close>, TAB, \<^verbatim>\<open>x\<close> and in the text \<^verbatim>\<open>-\<close>, line feed,
  \<^verbatim>\<open>x\<close> no line starts with a bullet followed by a space, yet the analyzer counts one
  list item in each: \<^verbatim>\<open>\s\<close> after the bullet takes any white space character, the line
  feed too.
\<close>

theorem list_items_claim_counterexample:
  "lists_count (complexity_stats [45, 9, 120]) = 1
   \<and> length (filter claimed_item_line (lines_of [45, 9, 120])) = 0
   \<and> lists_count (complexity_stats (py ''-\<newline>x'')) = 1
   \<and> length (filter claimed_item_line (lines_of (py ''-\<newline>x''))) = 0"
proof -
  have 1: "lists_count (complexity_stats [45, 9, 120]) = 1"
    by (simp add: lists_count_eval eval_simps list_pattern_def is_bullet_def)
  have 2: "length (filter claimed_item_line (lines_of [45, 9, 120])) = 0"
    by (simp add: lines_of.simps claimed_item_line_def is_space_def)
  have 3: "lists_count (complexity_stats (py ''-\<newline>x'')) = 1"
    by (simp add: lists_count_eval eval_simps list_pattern_def is_bullet_def)
  have 4: "length (filter claimed_item_line (lines_of (py ''-\<newline>x''))) = 0"
    by (simp add: py_def lines_of.simps claimed_item_line_def is_space_def)
  from 1 2 3 4 show ?thesis by simp
qed

text \<open>
  Claim C6, amended. The list item count of a text is the number of its lines which,
  after their leading white space, start with \<^verbatim>\<open>-\<close>, \<^verbatim>\<open>*\<close> or \<^verbatim>\<open>+\<close> followed by a white
  space character, where the line feed that ends the line counts as following the
  bullet.
\<close>

theorem list_items_are_bullet_lines:
  "lists_count (complexity_stats content) = length (filter item_line (lines_of content))"
  by (simp add: lists_count_eval findall_def list_scan at_bol_def)

end
